theory Spec2Isabelle
  imports Main "HOL-Library.Word"
begin

section \<open>The pseudo-SSL socket of libnice (socket/pseudossl.c)\<close>

text \<open>
  The decorator wraps a base socket, sends a fixed client handshake when it is made, waits
  for a fixed server handshake, queues every outgoing message until that handshake has
  been seen and is a pass-through afterwards.  Each C function of the file is a HOL
  function of the same name; the private structure is passed in and returned; the wrapped
  socket lives in an explicit world that logs every call made to it.
\<close>

subsection \<open>Constants\<close>

type_synonym guint8 = "8 word"

definition SSL_SERVER_HANDSHAKE :: "guint8 list" where
  "SSL_SERVER_HANDSHAKE =
    [0x16, 0x03, 0x01, 0x00, 0x4a, 0x02, 0x00, 0x00,
     0x46, 0x03, 0x01, 0x42, 0x85, 0x45, 0xa7, 0x27,
     0xa9, 0x5d, 0xa0, 0xb3, 0xc5, 0xe7, 0x53, 0xda,
     0x48, 0x2b, 0x3f, 0xc6, 0x5a, 0xca, 0x89, 0xc1,
     0x58, 0x52, 0xa1, 0x78, 0x3c, 0x5b, 0x17, 0x46,
     0x00, 0x85, 0x3f, 0x20, 0x0e, 0xd3, 0x06, 0x72,
     0x5b, 0x5b, 0x1b, 0x5f, 0x15, 0xac, 0x13, 0xf9,
     0x88, 0x53, 0x9d, 0x9b, 0xe8, 0x3d, 0x7b, 0x0c,
     0x30, 0x32, 0x6e, 0x38, 0x4d, 0xa2, 0x75, 0x57,
     0x41, 0x6c, 0x34, 0x5c, 0x00, 0x04, 0x00]"

definition SSL_CLIENT_HANDSHAKE :: "guint8 list" where
  "SSL_CLIENT_HANDSHAKE =
    [0x80, 0x46, 0x01, 0x03, 0x01, 0x00, 0x2d, 0x00,
     0x00, 0x00, 0x10, 0x01, 0x00, 0x80, 0x03, 0x00,
     0x80, 0x07, 0x00, 0xc0, 0x06, 0x00, 0x40, 0x02,
     0x00, 0x80, 0x04, 0x00, 0x80, 0x00, 0x00, 0x04,
     0x00, 0xfe, 0xff, 0x00, 0x00, 0x0a, 0x00, 0xfe,
     0xfe, 0x00, 0x00, 0x09, 0x00, 0x00, 0x64, 0x00,
     0x00, 0x62, 0x00, 0x00, 0x03, 0x00, 0x00, 0x06,
     0x1f, 0x17, 0x0c, 0xa6, 0x2f, 0x00, 0x78, 0xfc,
     0x46, 0x55, 0x2e, 0xb1, 0x83, 0x39, 0xf1, 0xea]"

text \<open>\<open>gboolean\<close> values as the \<open>gint\<close> that \<open>socket_send_messages\<close> returns.\<close>

definition TRUE :: int where "TRUE = 1"
definition FALSE :: int where "FALSE = 0"

subsection \<open>Data\<close>

text \<open>
  A \<open>GOutputVector\<close> is a pointer and a size.  \<open>out_buffer\<close> is \<open>None\<close> for the
  null pointer and otherwise the bytes stored where the pointer points; \<open>out_size\<close> is
  the C field \<open>size\<close>.  Sizes (\<open>gsize\<close>) are natural numbers: the only arithmetic the
  file does on them is \<open>length - offset\<close> with \<open>offset \<le> length\<close> and
  \<open>offset + len\<close> with \<open>len \<le> length - offset\<close>, neither of which can wrap.
\<close>

record GOutputVector =
  out_buffer :: "guint8 list option"
  out_size :: nat

text \<open>
  A \<open>NiceOutputMessage\<close> of this version of the library: the array \<open>buffers\<close>, the
  count \<open>n_buffers\<close> (negative: the array ends at the first null buffer), the optional
  destination \<open>to\<close> and the declared \<open>length\<close>.  The address type \<open>NiceAddress\<close> is
  declared outside this file and is the type parameter \<open>'a\<close>; its zero is what
  \<open>g_slice_new0\<close> leaves in a fresh entry.
\<close>

record 'a NiceOutputMessage =
  buffers :: "GOutputVector list"
  n_buffers :: int
  msg_to :: "'a option"
  msg_length :: nat

text \<open>\<open>struct to_be_sent\<close>: the owned compacted buffer, its length and the destination.\<close>

record 'a to_be_sent =
  buf :: "guint8 list"
  tbs_length :: nat
  tbs_to :: 'a

text \<open>
  A \<open>GInputVector\<close> and a \<open>NiceInputMessage\<close>.  \<open>in_buffer\<close> holds the bytes that
  have been stored in the vector's memory (none for an array nobody has written yet).
\<close>

record GInputVector =
  in_buffer :: "guint8 list"
  in_size :: nat

record 'a NiceInputMessage =
  in_buffers :: "GInputVector list"
  in_n_buffers :: int
  in_from :: "'a option"
  in_length :: nat

type_synonym NiceSocket_ptr = nat

text \<open>\<open>PseudoSSLPriv\<close>; \<open>base_socket = None\<close> is the null pointer.\<close>

record 'a PseudoSSLPriv =
  handshaken :: bool
  base_socket :: "NiceSocket_ptr option"
  send_queue :: "'a to_be_sent list"

text \<open>
  What stops the program: \<open>g_assert_cmpuint\<close> failing, or a read outside the memory
  the arguments describe.
\<close>

datatype error = AssertionFailed | Fault

subsection \<open>The wrapped socket\<close>

text \<open>
  The functions \<open>nice_socket_send\<close>, \<open>nice_socket_send_messages\<close>,
  \<open>nice_socket_recv_messages\<close> and \<open>nice_socket_free\<close> belong to the socket layer
  beneath this file.  They are parameters here: the world keeps the list of calls made to
  wrapped sockets, oldest first, and answers each call by a function of that list (the
  call being answered is its last element), so every sequence of answers is the behaviour
  of some world.  \<open>released\<close> lists the queue entries whose memory has been given back.
\<close>

datatype 'a base_call =
    Send NiceSocket_ptr "'a option" nat "guint8 list"
  | SendMessages NiceSocket_ptr "'a NiceOutputMessage list" nat
  | RecvMessages NiceSocket_ptr "'a NiceInputMessage list" nat
  | Free NiceSocket_ptr

record 'a world =
  calls :: "'a base_call list"
  released :: "'a to_be_sent list"
  send_ret :: "'a base_call list \<Rightarrow> int"
  send_messages_ret :: "'a base_call list \<Rightarrow> int"
  recv_messages_ret :: "'a base_call list \<Rightarrow> int"
  recv_messages_buf :: "'a base_call list \<Rightarrow> GInputVector"

definition nice_socket_send ::
  "NiceSocket_ptr \<Rightarrow> 'a option \<Rightarrow> nat \<Rightarrow> guint8 list \<Rightarrow> 'a world \<Rightarrow> int \<times> 'a world" where
  "nice_socket_send sock dest len b w =
     (let h = calls w @ [Send sock dest len b] in (send_ret w h, w\<lparr>calls := h\<rparr>))"

definition nice_socket_send_messages ::
  "NiceSocket_ptr \<Rightarrow> 'a NiceOutputMessage list \<Rightarrow> nat \<Rightarrow> 'a world \<Rightarrow> int \<times> 'a world" where
  "nice_socket_send_messages sock messages n_messages w =
     (let h = calls w @ [SendMessages sock messages n_messages]
      in (send_messages_ret w h, w\<lparr>calls := h\<rparr>))"

text \<open>
  A receive returns its \<open>gint\<close> and, second, the first buffer of the first message as it
  is after the call: its \<open>size\<close> field and the whole contents of its memory.
\<close>

definition nice_socket_recv_messages ::
  "NiceSocket_ptr \<Rightarrow> 'a NiceInputMessage list \<Rightarrow> nat \<Rightarrow> 'a world
     \<Rightarrow> int \<times> GInputVector \<times> 'a world" where
  "nice_socket_recv_messages sock recv_messages n_recv_messages w =
     (let h = calls w @ [RecvMessages sock recv_messages n_recv_messages]
      in (recv_messages_ret w h, recv_messages_buf w h, w\<lparr>calls := h\<rparr>))"

definition nice_socket_free :: "NiceSocket_ptr \<Rightarrow> 'a world \<Rightarrow> 'a world" where
  "nice_socket_free sock w = w\<lparr>calls := calls w @ [Free sock]\<rparr>"

subsection \<open>Queueing: \<open>add_to_be_sent\<close>\<close>

text \<open>
  The condition of the inner \<open>for\<close> loop.  With a count, nothing is read; without one,
  \<open>buffers[j].buffer\<close> is read, which is a fault past the end of the array.
\<close>

definition loop_cond :: "'a NiceOutputMessage \<Rightarrow> nat \<Rightarrow> error + bool" where
  "loop_cond message j =
     (if 0 \<le> n_buffers message then Inr (int j < n_buffers message)
      else if j < length (buffers message)
        then Inr (out_buffer (buffers message ! j) \<noteq> None)
        else Inl Fault)"

text \<open>\<open>memcpy\<close> of \<open>len\<close> bytes out of a vector's memory.\<close>

definition memcpy_from :: "GOutputVector \<Rightarrow> nat \<Rightarrow> error + guint8 list" where
  "memcpy_from buffer len =
     (if len = 0 then Inr []
      else case out_buffer buffer of
             None \<Rightarrow> Inl Fault
           | Some bs \<Rightarrow> if len \<le> length bs then Inr (take len bs) else Inl Fault)"

text \<open>
  The inner loop from index \<open>j\<close> on.  \<open>b\<close> is the part of \<open>tbs->buf\<close> written so far
  (its first \<open>offset\<close> bytes), so writing at \<open>tbs->buf + offset\<close> appends to it.
\<close>

function copy_buffers ::
  "'a NiceOutputMessage \<Rightarrow> nat \<Rightarrow> nat \<Rightarrow> guint8 list \<Rightarrow> error + (nat \<times> guint8 list)" where
  "copy_buffers message j offset b =
     (case loop_cond message j of
        Inl e \<Rightarrow> Inl e
      | Inr c \<Rightarrow>
          if \<not> c then Inr (offset, b)
          else if length (buffers message) \<le> j then Inl Fault
          else
            (let buffer = buffers message ! j;
                 len = min (msg_length message - offset) (out_size buffer)
             in case memcpy_from buffer len of
                  Inl e \<Rightarrow> Inl e
                | Inr bytes \<Rightarrow> copy_buffers message (Suc j) (offset + len) (b @ bytes)))"
  by pat_completeness auto
termination
  by (relation "measure (\<lambda>(message, j, offset, b). length (buffers message) - j)") auto

declare copy_buffers.simps [simp del]

text \<open>
  The body of the outer loop for one message: a fresh zeroed entry, the destination
  copied when there is one, the buffers compacted, then the assertion
  \<open>offset == message->length\<close>.  The entry is pushed before the copy in C; it is a
  pointer, so the queue sees the filled buffer.
\<close>

definition queue_message :: "'a::zero NiceOutputMessage \<Rightarrow> error + 'a to_be_sent" where
  "queue_message message =
     (case copy_buffers message 0 0 [] of
        Inl e \<Rightarrow> Inl e
      | Inr (offset, b) \<Rightarrow>
          if offset = msg_length message
          then Inr \<lparr>buf = b, tbs_length = msg_length message,
                    tbs_to = (case msg_to message of None \<Rightarrow> 0 | Some a \<Rightarrow> a)\<rparr>
          else Inl AssertionFailed)"

function add_to_be_sent_from ::
  "nat \<Rightarrow> 'a::zero PseudoSSLPriv \<Rightarrow> 'a NiceOutputMessage list \<Rightarrow> nat
     \<Rightarrow> error + 'a PseudoSSLPriv" where
  "add_to_be_sent_from i priv messages n_messages =
     (if i < n_messages then
        if length messages \<le> i then Inl Fault
        else case queue_message (messages ! i) of
               Inl e \<Rightarrow> Inl e
             | Inr tbs \<Rightarrow>
                 add_to_be_sent_from (Suc i)
                   (priv\<lparr>send_queue := send_queue priv @ [tbs]\<rparr>) messages n_messages
      else Inr priv)"
  by pat_completeness auto
termination
  by (relation "measure (\<lambda>(i, priv, messages, n_messages). n_messages - i)") auto

declare add_to_be_sent_from.simps [simp del]

definition add_to_be_sent ::
  "'a::zero PseudoSSLPriv \<Rightarrow> 'a NiceOutputMessage list \<Rightarrow> nat \<Rightarrow> error + 'a PseudoSSLPriv" where
  "add_to_be_sent priv messages n_messages = add_to_be_sent_from 0 priv messages n_messages"

definition free_to_be_sent :: "'a to_be_sent \<Rightarrow> 'a world \<Rightarrow> 'a world" where
  "free_to_be_sent tbs w = w\<lparr>released := released w @ [tbs]\<rparr>"

subsection \<open>The socket functions\<close>

definition nice_pseudossl_socket_new ::
  "NiceSocket_ptr \<Rightarrow> 'a world \<Rightarrow> 'a PseudoSSLPriv \<times> 'a world" where
  "nice_pseudossl_socket_new base w =
     (let priv = \<lparr>handshaken = False, base_socket = Some base, send_queue = []\<rparr>;
          (r, w1) = nice_socket_send base None (length SSL_CLIENT_HANDSHAKE)
                      SSL_CLIENT_HANDSHAKE w
      in (priv, w1))"

definition socket_close :: "'a PseudoSSLPriv \<Rightarrow> 'a world \<Rightarrow> 'a world" where
  "socket_close priv w =
     (let w1 = (case base_socket priv of Some base \<Rightarrow> nice_socket_free base w | None \<Rightarrow> w)
      in fold free_to_be_sent (send_queue priv) w1)"

definition socket_is_reliable :: "'a PseudoSSLPriv \<Rightarrow> bool" where
  "socket_is_reliable priv = True"

text \<open>
  The \<open>while\<close> loop that empties the queue once the handshake is seen: pop the head, send
  it on the base socket with the entry's own address, drop the result, free the entry.
\<close>

function pop_and_send ::
  "NiceSocket_ptr \<Rightarrow> 'a PseudoSSLPriv \<Rightarrow> 'a world \<Rightarrow> 'a PseudoSSLPriv \<times> 'a world" where
  "pop_and_send base priv w =
     (case send_queue priv of
        [] \<Rightarrow> (priv, w)
      | tbs # rest \<Rightarrow>
          (let (r, w1) = nice_socket_send base (Some (tbs_to tbs)) (tbs_length tbs) (buf tbs) w
           in pop_and_send base (priv\<lparr>send_queue := rest\<rparr>) (free_to_be_sent tbs w1)))"
  by pat_completeness auto
termination
  by (relation "measure (\<lambda>(base, priv, w). length (send_queue priv))") auto

declare pop_and_send.simps [simp del]

text \<open>
  The local buffer and message of the handshake read: one buffer, the array \<open>data\<close>
  of \<open>sizeof (SSL_SERVER_HANDSHAKE)\<close> bytes, not yet written.
\<close>

definition local_recv_buf :: GInputVector where
  "local_recv_buf = \<lparr>in_buffer = [], in_size = length SSL_SERVER_HANDSHAKE\<rparr>"

definition local_recv_message :: "'a NiceInputMessage" where
  "local_recv_message =
     \<lparr>in_buffers = [local_recv_buf], in_n_buffers = 1, in_from = None, in_length = 0\<rparr>"

text \<open>
  \<open>socket_recv_messages\<close> returns its \<open>gint\<close>, the private structure and the world.
  \<open>v\<close> is \<open>local_recv_buf\<close> after the call: \<open>in_size v\<close> is
  \<open>local_recv_buf.size\<close> and \<open>in_buffer v\<close> the contents of \<open>data\<close>, which has
  exactly \<open>sizeof (SSL_SERVER_HANDSHAKE)\<close> bytes, so the \<open>memcmp\<close> over that many bytes
  is equality with the pattern.  A positive \<open>ret\<close> only comes from a base socket, so the
  branches that find none after one are never taken.
\<close>

definition socket_recv_messages ::
  "'a PseudoSSLPriv \<Rightarrow> 'a NiceInputMessage list \<Rightarrow> nat \<Rightarrow> 'a world
     \<Rightarrow> int \<times> 'a PseudoSSLPriv \<times> 'a world" where
  "socket_recv_messages priv recv_messages n_recv_messages w =
     (if handshaken priv then
        (case base_socket priv of
           Some base \<Rightarrow>
             (let (r, v, w1) = nice_socket_recv_messages base recv_messages n_recv_messages w
              in (r, priv, w1))
         | None \<Rightarrow> (0, priv, w))
      else
        (let (ret, v, w1) =
               (case base_socket priv of
                  Some base \<Rightarrow> nice_socket_recv_messages base [local_recv_message] 1 w
                | None \<Rightarrow> (- 1, local_recv_buf, w))
         in if ret \<le> 0 then (ret, priv, w1)
            else if ret = 1 \<and> in_size v = length SSL_SERVER_HANDSHAKE
                    \<and> in_buffer v = SSL_SERVER_HANDSHAKE
            then
              (case base_socket priv of
                 Some base \<Rightarrow>
                   (let (priv', w2) = pop_and_send base (priv\<lparr>handshaken := True\<rparr>) w1
                    in (0, priv', w2))
               | None \<Rightarrow> (0, priv\<lparr>handshaken := True\<rparr>, w1))
            else
              (let w2 = (case base_socket priv of
                           Some base \<Rightarrow> nice_socket_free base w1
                         | None \<Rightarrow> w1)
               in (- 1, priv\<lparr>base_socket := None\<rparr>, w2))))"

definition socket_send_messages ::
  "'a::zero PseudoSSLPriv \<Rightarrow> 'a NiceOutputMessage list \<Rightarrow> nat \<Rightarrow> 'a world
     \<Rightarrow> error + (int \<times> 'a PseudoSSLPriv \<times> 'a world)" where
  "socket_send_messages priv messages n_messages w =
     (if handshaken priv then
        (case base_socket priv of
           None \<Rightarrow> Inr (FALSE, priv, w)
         | Some base \<Rightarrow>
             (let (r, w1) = nice_socket_send_messages base messages n_messages w
              in Inr (r, priv, w1)))
      else
        (case add_to_be_sent priv messages n_messages of
           Inl e \<Rightarrow> Inl e
         | Inr priv' \<Rightarrow> Inr (TRUE, priv', w)))"

subsection \<open>Sequences of calls\<close>

text \<open>
  A caller's receive or send on the decorator.  \<open>run\<close> makes the calls one after the
  other and lists the private structure after each call that returned; it stops at a call
  that stops the program.
\<close>

datatype 'a socket_call =
    CallRecv "'a NiceInputMessage list" nat
  | CallSend "'a NiceOutputMessage list" nat

fun run ::
  "'a::zero PseudoSSLPriv \<Rightarrow> 'a world \<Rightarrow> 'a socket_call list \<Rightarrow> 'a PseudoSSLPriv list" where
  "run priv w [] = []"
| "run priv w (CallRecv recv_messages n # cs) =
     (let (r, priv', w') = socket_recv_messages priv recv_messages n w
      in priv' # run priv' w' cs)"
| "run priv w (CallSend messages n # cs) =
     (case socket_send_messages priv messages n w of
        Inl e \<Rightarrow> []
      | Inr (r, priv', w') \<Rightarrow> priv' # run priv' w' cs)"

subsection \<open>What a message submits\<close>

text \<open>
  The notions the properties below are stated with.  A vector describes a byte range: the
  first \<open>out_size\<close> bytes of its memory, which must hold that many (a null pointer
  describes the empty range).  The vectors a message submits are the first \<open>n_buffers\<close>
  of its array or, for a negative count, those before the first null buffer; an array too
  short for its count, or without the null buffer that ends it, submits nothing readable.
\<close>

definition vector_ok :: "GOutputVector \<Rightarrow> bool" where
  "vector_ok v =
     (case out_buffer v of None \<Rightarrow> out_size v = 0 | Some bs \<Rightarrow> out_size v \<le> length bs)"

definition byte_range :: "GOutputVector \<Rightarrow> guint8 list" where
  "byte_range v = (case out_buffer v of None \<Rightarrow> [] | Some bs \<Rightarrow> take (out_size v) bs)"

definition submitted :: "'a NiceOutputMessage \<Rightarrow> GOutputVector list option" where
  "submitted message =
     (if 0 \<le> n_buffers message then
        if nat (n_buffers message) \<le> length (buffers message)
        then Some (take (nat (n_buffers message)) (buffers message)) else None
      else
        if \<exists>v \<in> set (buffers message). out_buffer v = None
        then Some (takeWhile (\<lambda>v. out_buffer v \<noteq> None) (buffers message)) else None)"

text \<open>
  A message passes the assertion of \<open>add_to_be_sent\<close> when its byte ranges jointly hold
  at least the declared length; its compacted copy is then the first \<open>msg_length\<close> bytes
  of their concatenation, with the destination copied or left zero.
\<close>

definition sendable :: "'a NiceOutputMessage \<Rightarrow> bool" where
  "sendable message =
     (case submitted message of
        None \<Rightarrow> False
      | Some vs \<Rightarrow>
          (\<forall>v \<in> set vs. vector_ok v) \<and> msg_length message \<le> sum_list (map out_size vs))"

definition compacted_copy :: "'a::zero NiceOutputMessage \<Rightarrow> 'a to_be_sent" where
  "compacted_copy message =
     \<lparr>buf = take (msg_length message)
              (concat (map byte_range (case submitted message of None \<Rightarrow> [] | Some vs \<Rightarrow> vs))),
      tbs_length = msg_length message,
      tbs_to = (case msg_to message of None \<Rightarrow> 0 | Some a \<Rightarrow> a)\<rparr>"

text \<open>The send that hands a queued entry to the base socket.\<close>

definition send_of :: "NiceSocket_ptr \<Rightarrow> 'a to_be_sent \<Rightarrow> 'a base_call" where
  "send_of base tbs = Send base (Some (tbs_to tbs)) (tbs_length tbs) (buf tbs)"

subsection \<open>Example values\<close>

text \<open>
  A world with no call made yet in which every send fails, every receive returns
  \<open>ret\<close> and leaves \<open>v\<close> in the first buffer; addresses are natural numbers.
\<close>

definition example_world :: "int \<Rightarrow> GInputVector \<Rightarrow> nat world" where
  "example_world ret v =
     \<lparr>calls = [], released = [], send_ret = (\<lambda>h. - 1), send_messages_ret = (\<lambda>h. - 1),
      recv_messages_ret = (\<lambda>h. ret), recv_messages_buf = (\<lambda>h. v)\<rparr>"

definition server_record :: GInputVector where
  "server_record = \<lparr>in_buffer = SSL_SERVER_HANDSHAKE, in_size = length SSL_SERVER_HANDSHAKE\<rparr>"

text \<open>
  The array \<open>data\<close> and \<open>local_recv_buf\<close> after a receive that delivered \<open>record\<close>,
  when the memory of the array held \<open>stale\<close> before the call: the bytes of the record
  come first, the bytes the receive did not write are still there, and the size field is
  the capacity the caller set, which a receive leaves alone.
\<close>

definition record_in_data :: "guint8 list \<Rightarrow> guint8 list \<Rightarrow> GInputVector" where
  "record_in_data record stale =
     \<lparr>in_buffer = take (length SSL_SERVER_HANDSHAKE) (record @ drop (length record) stale),
      in_size = length SSL_SERVER_HANDSHAKE\<rparr>"

text \<open>
  A record of three bytes, the first three of the server handshake, received into an array
  whose stack memory still held the server handshake (as the handshake read of another
  decorator, made at the same depth of the stack, leaves it).
\<close>

definition short_record :: GInputVector where
  "short_record = record_in_data [0x16, 0x03, 0x01] SSL_SERVER_HANDSHAKE"

text \<open>Two messages: \<open>[1, 2]\<close> then \<open>[3]\<close> to address 5, and \<open>[4]\<close> without a count.\<close>

definition example_message :: "nat NiceOutputMessage" where
  "example_message =
     \<lparr>buffers = [\<lparr>out_buffer = Some [1, 2], out_size = 2\<rparr>,
                 \<lparr>out_buffer = Some [3], out_size = 1\<rparr>],
      n_buffers = 2, msg_to = Some 5, msg_length = 3\<rparr>"

definition example_message2 :: "nat NiceOutputMessage" where
  "example_message2 =
     \<lparr>buffers = [\<lparr>out_buffer = Some [4], out_size = 1\<rparr>,
                 \<lparr>out_buffer = None, out_size = 0\<rparr>],
      n_buffers = - 1, msg_to = None, msg_length = 1\<rparr>"

text \<open>A message that declares three bytes and brings two.\<close>

definition short_message :: "nat NiceOutputMessage" where
  "short_message =
     \<lparr>buffers = [\<lparr>out_buffer = Some [1, 2], out_size = 2\<rparr>],
      n_buffers = 1, msg_to = None, msg_length = 3\<rparr>"

definition example_queue :: "nat to_be_sent list" where
  "example_queue =
     [\<lparr>buf = [1, 2, 3], tbs_length = 3, tbs_to = 5\<rparr>, \<lparr>buf = [4], tbs_length = 1, tbs_to = 0\<rparr>]"

definition example_priv :: "nat PseudoSSLPriv" where
  "example_priv = \<lparr>handshaken = False, base_socket = Some 7, send_queue = example_queue\<rparr>"

definition poisoned_priv :: "nat PseudoSSLPriv" where
  "poisoned_priv = \<lparr>handshaken = False, base_socket = None, send_queue = example_queue\<rparr>"

section \<open>Properties\<close>

subsection \<open>The compaction loop\<close>

lemma length_byte_range: "vector_ok v \<Longrightarrow> length (byte_range v) = out_size v"
  by (auto simp: vector_ok_def byte_range_def split: option.splits)

lemma memcpy_from_ok:
  "vector_ok v \<Longrightarrow> memcpy_from v (min n (out_size v)) = Inr (take n (byte_range v))"
  by (auto simp: vector_ok_def byte_range_def memcpy_from_def min_def split: option.splits)

lemma length_takeWhile_stops:
  "\<exists>x \<in> set xs. \<not> P x \<Longrightarrow> length (takeWhile P xs) < length xs"
  by (induction xs) auto

text \<open>Inside the submitted vectors the loop goes on and reads the vector it should.\<close>

lemma submitted_nth:
  assumes "submitted message = Some vs" "j < length vs"
  shows "j < length (buffers message) \<and> buffers message ! j = vs ! j
           \<and> loop_cond message j = Inr True"
proof (cases "0 \<le> n_buffers message")
  case True
  with assms show ?thesis
    by (auto simp: submitted_def loop_cond_def split: if_splits)
next
  case False
  with assms have vs: "vs = takeWhile (\<lambda>v. out_buffer v \<noteq> None) (buffers message)"
    by (auto simp: submitted_def split: if_splits)
  have len: "j < length (buffers message)"
    using assms(2) vs length_takeWhile_le [of "\<lambda>v. out_buffer v \<noteq> None" "buffers message"]
    by simp
  have eq: "buffers message ! j = vs ! j"
    using assms(2) vs by (simp add: takeWhile_nth)
  have "vs ! j \<in> set vs" using assms(2) by simp
  then have "out_buffer (vs ! j) \<noteq> None"
    unfolding vs by (auto dest: set_takeWhileD)
  with False len eq show ?thesis
    by (simp add: loop_cond_def)
qed

text \<open>Right after them it stops, without a fault.\<close>

lemma submitted_end:
  assumes "submitted message = Some vs"
  shows "loop_cond message (length vs) = Inr False"
proof (cases "0 \<le> n_buffers message")
  case True
  with assms show ?thesis
    by (auto simp: submitted_def loop_cond_def split: if_splits)
next
  case False
  with assms have vs: "vs = takeWhile (\<lambda>v. out_buffer v \<noteq> None) (buffers message)"
    and ex: "\<exists>v \<in> set (buffers message). out_buffer v = None"
    by (auto simp: submitted_def split: if_splits)
  from ex have lt: "length vs < length (buffers message)"
    unfolding vs by (intro length_takeWhile_stops) simp
  have "\<not> out_buffer (buffers message ! length vs) \<noteq> None"
    using lt unfolding vs by (rule nth_length_takeWhile)
  with False lt show ?thesis
    by (simp add: loop_cond_def)
qed

text \<open>
  The loop from \<open>j\<close> on: the offset ends at the declared length or at what the ranges
  hold, whichever is less, and the bytes appended are that many of their concatenation.
\<close>

lemma copy_buffers_submitted:
  assumes sub: "submitted message = Some vs"
    and ok: "\<forall>v \<in> set vs. vector_ok v"
  shows "j \<le> length vs \<Longrightarrow> offset \<le> msg_length message \<Longrightarrow>
     copy_buffers message j offset b =
       Inr (min (msg_length message) (offset + sum_list (map out_size (drop j vs))),
            b @ take (msg_length message - offset) (concat (map byte_range (drop j vs))))"
proof (induction "length vs - j" arbitrary: j offset b)
  case 0
  then have j: "j = length vs" by simp
  show ?case
    using submitted_end [OF sub] "0.prems"(2)
    by (subst copy_buffers.simps) (simp add: j)
next
  case (Suc k)
  then have lt: "j < length vs" by simp
  let ?v = "vs ! j"
  let ?len = "min (msg_length message - offset) (out_size ?v)"
  have vok: "vector_ok ?v" using ok lt by simp
  have nth: "j < length (buffers message)" "buffers message ! j = ?v"
    "loop_cond message j = Inr True"
    using submitted_nth [OF sub lt] by simp_all
  have cp: "memcpy_from ?v ?len = Inr (take (msg_length message - offset) (byte_range ?v))"
    using vok by (rule memcpy_from_ok)
  have step: "copy_buffers message j offset b =
      copy_buffers message (Suc j) (offset + ?len)
        (b @ take (msg_length message - offset) (byte_range ?v))"
    using nth(1) by (subst copy_buffers.simps) (simp add: nth cp Let_def not_le [symmetric])
  have IH: "copy_buffers message (Suc j) (offset + ?len)
        (b @ take (msg_length message - offset) (byte_range ?v)) =
      Inr (min (msg_length message) (offset + ?len + sum_list (map out_size (drop (Suc j) vs))),
           (b @ take (msg_length message - offset) (byte_range ?v)) @
             take (msg_length message - (offset + ?len))
               (concat (map byte_range (drop (Suc j) vs))))"
    using Suc.hyps(2) lt Suc.prems(2) by (intro Suc.hyps(1)) auto
  have dr: "drop j vs = ?v # drop (Suc j) vs"
    using lt by (simp add: Cons_nth_drop_Suc)
  have n1: "min (msg_length message) (offset + ?len + sum_list (map out_size (drop (Suc j) vs)))
      = min (msg_length message) (offset + sum_list (map out_size (drop j vs)))"
    using Suc.prems(2) unfolding dr
    by (cases "msg_length message - offset \<le> out_size ?v") auto
  have n2: "take (msg_length message - offset) (byte_range ?v) @
             take (msg_length message - (offset + ?len))
               (concat (map byte_range (drop (Suc j) vs)))
      = take (msg_length message - offset) (concat (map byte_range (drop j vs)))"
    using Suc.prems(2) length_byte_range [OF vok]
    by (auto simp: dr min_def)
  show ?case
    unfolding step IH n1 using n2 by simp
qed

subsection \<open>Queueing\<close>

text \<open>One message: the assertion fails exactly when the ranges hold too little.\<close>

lemma queue_message_submitted:
  assumes "submitted message = Some vs" "\<forall>v \<in> set vs. vector_ok v"
  shows "queue_message message =
     (if sum_list (map out_size vs) < msg_length message then Inl AssertionFailed
      else Inr \<lparr>buf = take (msg_length message) (concat (map byte_range vs)),
                tbs_length = msg_length message,
                tbs_to = (case msg_to message of None \<Rightarrow> 0 | Some a \<Rightarrow> a)\<rparr>)"
  using copy_buffers_submitted [OF assms, of 0 0 "[]"]
  by (auto simp: queue_message_def)

lemma length_concat_ranges:
  "\<forall>v \<in> set vs. vector_ok v \<Longrightarrow> length (concat (map byte_range vs)) = sum_list (map out_size vs)"
  by (induction vs) (simp_all add: length_byte_range)

lemma queue_message_sendable:
  "sendable message \<Longrightarrow> queue_message message = Inr (compacted_copy message)"
  by (auto simp: sendable_def compacted_copy_def queue_message_submitted split: option.splits)

lemma add_to_be_sent_from_sendable:
  assumes "n_messages \<le> length messages" "\<forall>m \<in> set (take n_messages messages). sendable m"
  shows "i \<le> n_messages \<Longrightarrow>
    add_to_be_sent_from i priv messages n_messages =
      Inr (priv\<lparr>send_queue := send_queue priv
                 @ map compacted_copy (drop i (take n_messages messages))\<rparr>)"
proof (induction "n_messages - i" arbitrary: i priv)
  case 0
  then show ?case
    using assms(1) by (subst add_to_be_sent_from.simps) simp
next
  case (Suc k)
  then have lt: "i < n_messages" by simp
  then have il: "i < length messages" using assms(1) by simp
  have "messages ! i \<in> set (take n_messages messages)"
    using lt il by (metis in_set_conv_nth length_take min.absorb2 nth_take assms(1))
  then have q: "queue_message (messages ! i) = Inr (compacted_copy (messages ! i))"
    using assms(2) by (simp add: queue_message_sendable)
  have dr: "drop i (take n_messages messages)
      = messages ! i # drop (Suc i) (take n_messages messages)"
    using lt il by (simp add: Cons_nth_drop_Suc [symmetric])
  have IH: "add_to_be_sent_from (Suc i)
       (priv\<lparr>send_queue := send_queue priv @ [compacted_copy (messages ! i)]\<rparr>) messages n_messages
     = Inr (priv\<lparr>send_queue := send_queue priv @ [compacted_copy (messages ! i)]\<rparr>
             \<lparr>send_queue := send_queue (priv\<lparr>send_queue := send_queue priv @ [compacted_copy (messages ! i)]\<rparr>)
                 @ map compacted_copy (drop (Suc i) (take n_messages messages))\<rparr>)"
    using Suc.hyps(2) lt by (intro Suc.hyps(1)) auto
  show ?case
    using lt il by (subst add_to_be_sent_from.simps) (simp add: q IH dr not_le [symmetric])
qed

text \<open>What a queueing that returned has done, message by message.\<close>

lemma add_to_be_sent_from_Inr:
  "add_to_be_sent_from i priv messages n_messages = Inr priv' \<Longrightarrow>
     \<exists>ts. priv' = priv\<lparr>send_queue := send_queue priv @ ts\<rparr> \<and> length ts = n_messages - i
        \<and> (\<forall>k < n_messages - i. i + k < length messages
               \<and> queue_message (messages ! (i + k)) = Inr (ts ! k))"
proof (induction "n_messages - i" arbitrary: i priv)
  case 0
  then show ?case
    by (subst (asm) add_to_be_sent_from.simps) (auto split: if_splits)
next
  case (Suc d)
  then have lt: "i < n_messages" by simp
  from Suc.prems lt obtain tbs where il: "i < length messages"
    and q: "queue_message (messages ! i) = Inr tbs"
    and rec: "add_to_be_sent_from (Suc i) (priv\<lparr>send_queue := send_queue priv @ [tbs]\<rparr>)
                messages n_messages = Inr priv'"
    by (subst (asm) add_to_be_sent_from.simps) (auto split: if_splits sum.splits)
  from Suc.hyps(2) have "d = n_messages - Suc i" by simp
  from Suc.hyps(1) [OF this rec] obtain ts where
    p: "priv' = priv\<lparr>send_queue := send_queue priv @ [tbs]\<rparr>
                 \<lparr>send_queue := send_queue (priv\<lparr>send_queue := send_queue priv @ [tbs]\<rparr>) @ ts\<rparr>"
    and l: "length ts = n_messages - Suc i"
    and a: "\<forall>k < n_messages - Suc i. Suc i + k < length messages
               \<and> queue_message (messages ! (Suc i + k)) = Inr (ts ! k)"
    by blast
  have "\<forall>k < n_messages - i. i + k < length messages
               \<and> queue_message (messages ! (i + k)) = Inr ((tbs # ts) ! k)"
  proof (intro allI impI)
    fix k assume k: "k < n_messages - i"
    show "i + k < length messages \<and> queue_message (messages ! (i + k)) = Inr ((tbs # ts) ! k)"
    proof (cases k)
      case 0
      then show ?thesis using il q by simp
    next
      case (Suc k')
      then have "k' < n_messages - Suc i" using k by simp
      with a Suc show ?thesis by simp
    qed
  qed
  moreover have "priv' = priv\<lparr>send_queue := send_queue priv @ tbs # ts\<rparr>"
    using p by simp
  moreover have "length (tbs # ts) = n_messages - i" using l lt by simp
  ultimately show ?case by blast
qed

subsection \<open>Receiving\<close>

text \<open>The flush sends every entry in queue order, frees it and leaves the queue empty.\<close>

lemma pop_and_send_all:
  "pop_and_send base priv w =
     (priv\<lparr>send_queue := []\<rparr>,
      w\<lparr>calls := calls w @ map (send_of base) (send_queue priv),
        released := released w @ send_queue priv\<rparr>)"
proof (induction "send_queue priv" arbitrary: priv w)
  case Nil
  then show ?case
    by (subst pop_and_send.simps) (simp add: Nil [symmetric])
next
  case (Cons tbs rest)
  from Cons.hyps(2) have q: "send_queue priv = tbs # rest" by simp
  have "rest = send_queue (priv\<lparr>send_queue := rest\<rparr>)" by simp
  from Cons.hyps(1) [OF this] show ?case
    by (subst pop_and_send.simps)
       (simp add: q nice_socket_send_def free_to_be_sent_def send_of_def Let_def)
qed

lemma add_to_be_sent_fields:
  assumes "add_to_be_sent priv messages n_messages = Inr priv'"
  shows "handshaken priv' = handshaken priv \<and> base_socket priv' = base_socket priv"
  using add_to_be_sent_from_Inr [OF assms [unfolded add_to_be_sent_def]] by auto

lemma send_not_handshaken:
  "\<not> handshaken priv \<Longrightarrow>
     socket_send_messages priv messages n_messages w =
       (case add_to_be_sent priv messages n_messages of
          Inl e \<Rightarrow> Inl e
        | Inr priv' \<Rightarrow> Inr (TRUE, priv', w))"
  by (simp add: socket_send_messages_def)

lemma send_not_handshaken_Inr:
  assumes "\<not> handshaken priv"
    and "socket_send_messages priv messages n_messages w = Inr (r, priv', w')"
  shows "r = TRUE \<and> w' = w \<and> add_to_be_sent priv messages n_messages = Inr priv'"
  using assms by (auto simp: send_not_handshaken split: sum.splits)

lemma send_not_handshaken_sendable:
  assumes "\<not> handshaken priv" "n_messages \<le> length messages"
    and "\<forall>m \<in> set (take n_messages messages). sendable m"
  shows "socket_send_messages priv messages n_messages w =
     Inr (TRUE, priv\<lparr>send_queue := send_queue priv
                       @ map compacted_copy (take n_messages messages)\<rparr>, w)"
  using add_to_be_sent_from_sendable [OF assms(2,3), of 0 priv] assms(1)
  by (simp add: send_not_handshaken add_to_be_sent_def)

lemma recv_no_base:
  "base_socket priv = None \<Longrightarrow>
     socket_recv_messages priv recv_messages n w =
       ((if handshaken priv then 0 else - 1), priv, w)"
  by (simp add: socket_recv_messages_def)

lemma recv_handshake_read:
  assumes "\<not> handshaken priv" "base_socket priv = Some base"
    and "h = calls w @ [RecvMessages base [local_recv_message] 1]"
  shows "socket_recv_messages priv recv_messages n w =
     (if recv_messages_ret w h \<le> 0 then (recv_messages_ret w h, priv, w\<lparr>calls := h\<rparr>)
      else if recv_messages_ret w h = 1
              \<and> in_size (recv_messages_buf w h) = length SSL_SERVER_HANDSHAKE
              \<and> in_buffer (recv_messages_buf w h) = SSL_SERVER_HANDSHAKE
      then (0, priv\<lparr>handshaken := True, send_queue := []\<rparr>,
            w\<lparr>calls := h @ map (send_of base) (send_queue priv),
              released := released w @ send_queue priv\<rparr>)
      else (- 1, priv\<lparr>base_socket := None\<rparr>, w\<lparr>calls := h @ [Free base]\<rparr>))"
  using assms
  by (simp add: socket_recv_messages_def nice_socket_recv_messages_def nice_socket_free_def
        pop_and_send_all Let_def)

subsection \<open>States that later calls can reach\<close>

lemma poisoned_stays:
  "\<not> handshaken priv \<Longrightarrow> base_socket priv = None \<Longrightarrow>
     \<forall>q \<in> set (run priv w cs). \<not> handshaken q \<and> base_socket q = None"
proof (induction cs arbitrary: priv w)
  case Nil
  then show ?case by simp
next
  case (Cons c cs)
  show ?case
  proof (cases c)
    case (CallRecv ms n)
    have s: "socket_recv_messages priv ms n w = (- 1, priv, w)"
      using Cons.prems by (simp add: recv_no_base)
    from Cons.IH [OF Cons.prems] have "\<forall>q \<in> set (run priv w cs). \<not> handshaken q \<and> base_socket q = None" .
    with Cons.prems show ?thesis
      by (simp add: CallRecv s)
  next
    case (CallSend ms n)
    show ?thesis
    proof (cases "socket_send_messages priv ms n w")
      case (Inl e)
      with CallSend show ?thesis by simp
    next
      case (Inr x)
      obtain r priv' w' where x: "x = (r, priv', w')" by (cases x) auto
      from send_not_handshaken_Inr [OF Cons.prems(1) Inr [unfolded x]]
      have "add_to_be_sent priv ms n = Inr priv'" by simp
      from add_to_be_sent_fields [OF this] Cons.prems
      have p: "\<not> handshaken priv'" "base_socket priv' = None" by simp_all
      from Cons.IH [OF p] have "\<forall>q \<in> set (run priv' w' cs). \<not> handshaken q \<and> base_socket q = None" .
      with p show ?thesis
        by (simp add: CallSend Inr x)
    qed
  qed
qed

text \<open>
  When the array itself differs from the pattern after a read that returned a positive
  value (or the size field has been changed), the base socket is freed and cleared, the
  receive returns \<open>- 1\<close>, and no later call makes the decorator handshaken.
\<close>

lemma buffer_mismatch_poisons:
  assumes "\<not> handshaken priv" and "base_socket priv = Some base"
    and "h = calls w @ [RecvMessages base [local_recv_message] 1]"
    and "0 < recv_messages_ret w h"
    and "in_size (recv_messages_buf w h) \<noteq> length SSL_SERVER_HANDSHAKE
         \<or> in_buffer (recv_messages_buf w h) \<noteq> SSL_SERVER_HANDSHAKE"
  shows "socket_recv_messages priv recv_messages n_recv_messages w =
           (- 1, priv\<lparr>base_socket := None\<rparr>, w\<lparr>calls := h @ [Free base]\<rparr>)
         \<and> (\<forall>q \<in> set (run (priv\<lparr>base_socket := None\<rparr>) w' cs).
               \<not> handshaken q \<and> base_socket q = None)"
proof
  show "socket_recv_messages priv recv_messages n_recv_messages w =
           (- 1, priv\<lparr>base_socket := None\<rparr>, w\<lparr>calls := h @ [Free base]\<rparr>)"
    using assms(4,5) by (auto simp: recv_handshake_read [OF assms(1-3)])
  show "\<forall>q \<in> set (run (priv\<lparr>base_socket := None\<rparr>) w' cs).
               \<not> handshaken q \<and> base_socket q = None"
    using assms(1) by (intro poisoned_stays) simp_all
qed

text \<open>A handshaken decorator that came from the constructor has its base socket.\<close>

lemma handshaken_has_base_step_recv:
  assumes "handshaken priv \<longrightarrow> base_socket priv \<noteq> None"
    and "socket_recv_messages priv ms n w = (r, priv', w')"
  shows "handshaken priv' \<longrightarrow> base_socket priv' \<noteq> None"
proof (cases "base_socket priv")
  case None
  with assms show ?thesis by (auto simp: recv_no_base split: if_splits)
next
  case (Some base)
  show ?thesis
  proof (cases "handshaken priv")
    case True
    with assms Some show ?thesis
      by (auto simp: socket_recv_messages_def nice_socket_recv_messages_def Let_def)
  next
    case False
    from assms(2) Some show ?thesis
      unfolding recv_handshake_read [OF False Some refl]
      by (auto simp: False split: if_splits)
  qed
qed

lemma handshaken_has_base_step_send:
  assumes "handshaken priv \<longrightarrow> base_socket priv \<noteq> None"
    and "socket_send_messages priv ms n w = Inr (r, priv', w')"
  shows "handshaken priv' \<longrightarrow> base_socket priv' \<noteq> None"
proof (cases "handshaken priv")
  case True
  with assms show ?thesis
    by (auto simp: socket_send_messages_def nice_socket_send_messages_def Let_def
          split: option.splits)
next
  case False
  from send_not_handshaken_Inr [OF False assms(2)]
  have "add_to_be_sent priv ms n = Inr priv'" by simp
  from add_to_be_sent_fields [OF this] False show ?thesis by simp
qed

lemma handshaken_has_base:
  "handshaken priv \<longrightarrow> base_socket priv \<noteq> None \<Longrightarrow>
     \<forall>q \<in> set (run priv w cs). handshaken q \<longrightarrow> base_socket q \<noteq> None"
proof (induction cs arbitrary: priv w)
  case Nil
  then show ?case by simp
next
  case (Cons c cs)
  show ?case
  proof (cases c)
    case (CallRecv ms n)
    obtain r priv' w' where s: "socket_recv_messages priv ms n w = (r, priv', w')"
      by (cases "socket_recv_messages priv ms n w") auto
    from handshaken_has_base_step_recv [OF Cons.prems s]
    have p: "handshaken priv' \<longrightarrow> base_socket priv' \<noteq> None" .
    from Cons.IH [OF p] p CallRecv s show ?thesis by simp
  next
    case (CallSend ms n)
    show ?thesis
    proof (cases "socket_send_messages priv ms n w")
      case (Inl e)
      with CallSend show ?thesis by simp
    next
      case (Inr x)
      obtain r priv' w' where x: "x = (r, priv', w')" by (cases x) auto
      from handshaken_has_base_step_send [OF Cons.prems Inr [unfolded x]]
      have p: "handshaken priv' \<longrightarrow> base_socket priv' \<noteq> None" .
      from Cons.IH [OF p] p CallSend Inr x show ?thesis by simp
    qed
  qed
qed

lemma handshaken_has_base_from_new:
  "\<forall>q \<in> set (run (fst (nice_pseudossl_socket_new base w)) w' cs).
      handshaken q \<longrightarrow> base_socket q \<noteq> None"
  by (rule handshaken_has_base) (simp add: nice_pseudossl_socket_new_def Let_def split_beta)

section \<open>The claims\<close>

subsection \<open>Construction\<close>

text \<open>The sizes of the two patterns, as \<open>sizeof\<close> gives them.\<close>

lemma length_client: "length SSL_CLIENT_HANDSHAKE = 72"
  by (simp add: SSL_CLIENT_HANDSHAKE_def)

lemma length_server: "length SSL_SERVER_HANDSHAKE = 79"
  by (simp add: SSL_SERVER_HANDSHAKE_def)

text \<open>
  Claim C3, as amended.  Construction makes exactly one call on the wrapped socket: a send
  with no destination address whose payload is the fixed client handshake, and returns a
  decorator that is not handshaken, holds the wrapped socket and has an empty queue.  The
  client handshake has 72 bytes (the claim says 71): its first two bytes, \<open>0x80 0x46\<close>,
  announce the 70 bytes that follow them.
\<close>

theorem construction_sends_client_handshake:
  "nice_pseudossl_socket_new base w =
     (\<lparr>handshaken = False, base_socket = Some base, send_queue = []\<rparr>,
      w\<lparr>calls := calls w @ [Send base None 72 SSL_CLIENT_HANDSHAKE]\<rparr>)
   \<and> length SSL_CLIENT_HANDSHAKE = 72"
  by (simp add: nice_pseudossl_socket_new_def nice_socket_send_def Let_def length_client)

text \<open>
  Claim C3 as stated fails: on socket 7 in a fresh world the one send carries the whole
  pattern, and the pattern does not have 71 bytes.
\<close>

theorem construction_payload_not_71_bytes:
  "calls (snd (nice_pseudossl_socket_new 7 (example_world 1 server_record)))
     = [Send 7 None (length SSL_CLIENT_HANDSHAKE) SSL_CLIENT_HANDSHAKE]
   \<and> length SSL_CLIENT_HANDSHAKE \<noteq> 71"
  by (simp add: nice_pseudossl_socket_new_def nice_socket_send_def Let_def length_client
        example_world_def)

subsection \<open>Receiving without a base socket\<close>

text \<open>
  Claim C4, as amended.  A receive made while the decorator is not handshaken and has no
  base socket returns \<open>- 1\<close>, the value \<open>ret\<close> is initialised with, and changes
  nothing and calls nothing.  (The claim says it returns 0.)
\<close>

theorem recv_unhandshaken_without_base:
  assumes "\<not> handshaken priv" and "base_socket priv = None"
  shows "socket_recv_messages priv recv_messages n_recv_messages w = (- 1, priv, w)"
  using assms by (simp add: recv_no_base)

theorem recv_unhandshaken_without_base_witness:
  "\<not> handshaken poisoned_priv \<and> base_socket poisoned_priv = None
   \<and> socket_recv_messages poisoned_priv [] 0 (example_world 1 server_record)
       = (- 1, poisoned_priv, example_world 1 server_record)"
proof -
  have h1: "\<not> handshaken poisoned_priv" by (simp add: poisoned_priv_def)
  have h2: "base_socket poisoned_priv = None" by (simp add: poisoned_priv_def)
  show ?thesis
    using h1 h2 recv_unhandshaken_without_base [OF h1 h2, of "[]" 0 "example_world 1 server_record"]
    by simp
qed

text \<open>Claim C4 as stated fails: the poisoned decorator's receive does not return 0.\<close>

theorem recv_unhandshaken_without_base_not_zero:
  "fst (socket_recv_messages poisoned_priv [] 0 (example_world 1 server_record)) \<noteq> 0"
  by (simp add: socket_recv_messages_def poisoned_priv_def)

subsection \<open>The handshake read\<close>

text \<open>
  Claim C1.  A receive is made while the decorator is not handshaken and has its base
  socket.  If the read of the local message returns 1 and leaves \<open>local_recv_buf\<close> with
  the size of the server handshake and \<open>data\<close> equal to the server handshake, then the
  call returns 0, the decorator is handshaken, and after the read the base socket has
  received one send for each queued entry, in queue order, with the entry's stored
  address, length and bytes; every entry has been freed, in that order, and the queue is
  empty.
\<close>

theorem server_handshake_flushes_queue:
  assumes "\<not> handshaken priv" and "base_socket priv = Some base"
    and "h = calls w @ [RecvMessages base [local_recv_message] 1]"
    and "recv_messages_ret w h = 1"
    and "in_size (recv_messages_buf w h) = length SSL_SERVER_HANDSHAKE"
    and "in_buffer (recv_messages_buf w h) = SSL_SERVER_HANDSHAKE"
  shows "socket_recv_messages priv recv_messages n_recv_messages w =
     (0, priv\<lparr>handshaken := True, send_queue := []\<rparr>,
      w\<lparr>calls := h @ map (send_of base) (send_queue priv),
        released := released w @ send_queue priv\<rparr>)"
  using assms(4-6) by (simp add: recv_handshake_read [OF assms(1-3)])

theorem server_handshake_flushes_queue_witness:
  "\<not> handshaken example_priv \<and> base_socket example_priv = Some 7
   \<and> recv_messages_ret (example_world 1 server_record) [RecvMessages 7 [local_recv_message] 1] = 1
   \<and> recv_messages_buf (example_world 1 server_record) [RecvMessages 7 [local_recv_message] 1]
        = server_record
   \<and> socket_recv_messages example_priv [] 0 (example_world 1 server_record) =
       (0, \<lparr>handshaken = True, base_socket = Some 7, send_queue = []\<rparr>,
        (example_world 1 server_record)
          \<lparr>calls := [RecvMessages 7 [local_recv_message] 1,
                     Send 7 (Some 5) 3 [1, 2, 3], Send 7 (Some 0) 1 [4]],
           released := example_queue\<rparr>)"
proof -
  let ?w = "example_world 1 server_record"
  let ?h = "[RecvMessages 7 [local_recv_message] 1] :: nat base_call list"
  have h1: "\<not> handshaken example_priv" by (simp add: example_priv_def)
  have h2: "base_socket example_priv = Some 7" by (simp add: example_priv_def)
  have h3: "?h = calls ?w @ [RecvMessages 7 [local_recv_message] 1]"
    by (simp add: example_world_def)
  have h4: "recv_messages_ret ?w ?h = 1" by (simp add: example_world_def)
  have h5: "in_size (recv_messages_buf ?w ?h) = length SSL_SERVER_HANDSHAKE"
    by (simp add: example_world_def server_record_def)
  have h6: "in_buffer (recv_messages_buf ?w ?h) = SSL_SERVER_HANDSHAKE"
    by (simp add: example_world_def server_record_def)
  show ?thesis
    using h1 h2 h4 server_handshake_flushes_queue [OF h1 h2 h3 h4 h5 h6, of "[]" 0]
    by (simp add: example_priv_def example_queue_def send_of_def example_world_def)
qed

text \<open>
  Claim C10.  In the flush that follows the recognised server handshake the result of
  each send is dropped.  Whatever function \<open>f\<close> gives the results of the sends on the
  base socket (all of them failures, for instance), the receive returns 0, every queued
  entry is sent once in queue order and freed, and the queue is left empty.
\<close>

theorem flush_ignores_send_results:
  assumes "\<not> handshaken priv" and "base_socket priv = Some base"
    and "h = calls w @ [RecvMessages base [local_recv_message] 1]"
    and "recv_messages_ret w h = 1"
    and "in_size (recv_messages_buf w h) = length SSL_SERVER_HANDSHAKE"
    and "in_buffer (recv_messages_buf w h) = SSL_SERVER_HANDSHAKE"
  shows "socket_recv_messages priv recv_messages n_recv_messages (w\<lparr>send_ret := f\<rparr>) =
     (0, priv\<lparr>handshaken := True, send_queue := []\<rparr>,
      w\<lparr>send_ret := f,
        calls := h @ map (send_of base) (send_queue priv),
        released := released w @ send_queue priv\<rparr>)"
proof -
  have h': "h = calls (w\<lparr>send_ret := f\<rparr>) @ [RecvMessages base [local_recv_message] 1]"
    using assms(3) by simp
  show ?thesis
    using assms(4-6) by (simp add: recv_handshake_read [OF assms(1,2) h'])
qed

text \<open>With two entries queued and every send answered by \<open>- 1\<close>.\<close>

theorem flush_ignores_send_results_witness:
  "\<not> handshaken example_priv \<and> base_socket example_priv = Some 7
   \<and> recv_messages_ret (example_world 1 server_record) [RecvMessages 7 [local_recv_message] 1] = 1
   \<and> recv_messages_buf (example_world 1 server_record) [RecvMessages 7 [local_recv_message] 1]
        = server_record
   \<and> send_ret ((example_world 1 server_record)\<lparr>send_ret := (\<lambda>h. - 1)\<rparr>)
        [RecvMessages 7 [local_recv_message] 1, Send 7 (Some 5) 3 [1, 2, 3]] < 0
   \<and> socket_recv_messages example_priv [] 0
        ((example_world 1 server_record)\<lparr>send_ret := (\<lambda>h. - 1)\<rparr>) =
       (0, \<lparr>handshaken = True, base_socket = Some 7, send_queue = []\<rparr>,
        (example_world 1 server_record)
          \<lparr>send_ret := (\<lambda>h. - 1),
           calls := [RecvMessages 7 [local_recv_message] 1,
                     Send 7 (Some 5) 3 [1, 2, 3], Send 7 (Some 0) 1 [4]],
           released := example_queue\<rparr>)"
proof -
  let ?w = "example_world 1 server_record"
  let ?h = "[RecvMessages 7 [local_recv_message] 1] :: nat base_call list"
  have h1: "\<not> handshaken example_priv" by (simp add: example_priv_def)
  have h2: "base_socket example_priv = Some 7" by (simp add: example_priv_def)
  have h3: "?h = calls ?w @ [RecvMessages 7 [local_recv_message] 1]"
    by (simp add: example_world_def)
  have h4: "recv_messages_ret ?w ?h = 1" by (simp add: example_world_def)
  have h5: "in_size (recv_messages_buf ?w ?h) = length SSL_SERVER_HANDSHAKE"
    by (simp add: example_world_def server_record_def)
  have h6: "in_buffer (recv_messages_buf ?w ?h) = SSL_SERVER_HANDSHAKE"
    by (simp add: example_world_def server_record_def)
  show ?thesis
    using h1 h2 h4
      flush_ignores_send_results [OF h1 h2 h3 h4 h5 h6, of "[]" 0 "\<lambda>h. - 1"]
    by (simp add: example_priv_def example_queue_def send_of_def example_world_def)
qed

text \<open>
  Any leading part of the server handshake, received over memory that held the pattern,
  leaves the array equal to the pattern.
\<close>

lemma prefix_record_in_data:
  "record_in_data (take k SSL_SERVER_HANDSHAKE) SSL_SERVER_HANDSHAKE = server_record"
  by (cases "k \<le> length SSL_SERVER_HANDSHAKE")
     (simp_all add: record_in_data_def server_record_def min_def)

text \<open>
  Claim C5: a record whose size is not that of the server handshake must release the base
  socket, make the receive return a negative value and keep the decorator from ever being
  handshaken.  The code does not do this.  It compares \<open>local_recv_buf.size\<close>, which is
  the capacity it has set itself and not the number of bytes received, and its \<open>memcmp\<close>
  reads all of \<open>data\<close>, the bytes the receive did not write included.  Here the base
  socket returns 1 for a record of three bytes, \<open>data\<close> held the pattern before, and the
  decorator with two queued entries becomes handshaken, flushes its queue and returns 0.
\<close>

theorem short_record_is_accepted:
  "length [0x16, 0x03, 0x01 :: guint8] \<noteq> length SSL_SERVER_HANDSHAKE
   \<and> recv_messages_buf (example_world 1 short_record) [RecvMessages 7 [local_recv_message] 1]
        = record_in_data [0x16, 0x03, 0x01] SSL_SERVER_HANDSHAKE
   \<and> socket_recv_messages example_priv [] 0 (example_world 1 short_record) =
       (0, \<lparr>handshaken = True, base_socket = Some 7, send_queue = []\<rparr>,
        (example_world 1 short_record)
          \<lparr>calls := [RecvMessages 7 [local_recv_message] 1,
                     Send 7 (Some 5) 3 [1, 2, 3], Send 7 (Some 0) 1 [4]],
           released := example_queue\<rparr>)"
proof -
  let ?w = "example_world 1 short_record"
  let ?h = "[RecvMessages 7 [local_recv_message] 1] :: nat base_call list"
  have l: "length [0x16, 0x03, 0x01 :: guint8] \<noteq> length SSL_SERVER_HANDSHAKE"
    by (simp add: length_server)
  have b: "recv_messages_buf ?w ?h = record_in_data [0x16, 0x03, 0x01] SSL_SERVER_HANDSHAKE"
    by (simp add: example_world_def short_record_def)
  have h1: "\<not> handshaken example_priv" by (simp add: example_priv_def)
  have h2: "base_socket example_priv = Some 7" by (simp add: example_priv_def)
  have h3: "?h = calls ?w @ [RecvMessages 7 [local_recv_message] 1]"
    by (simp add: example_world_def)
  have h4: "recv_messages_ret ?w ?h = 1" by (simp add: example_world_def)
  have h5: "in_size (recv_messages_buf ?w ?h) = length SSL_SERVER_HANDSHAKE"
    unfolding b by (simp add: record_in_data_def)
  have h6: "in_buffer (recv_messages_buf ?w ?h) = SSL_SERVER_HANDSHAKE"
    unfolding b by (simp add: record_in_data_def SSL_SERVER_HANDSHAKE_def)
  have r: "socket_recv_messages example_priv [] 0 ?w =
       (0, \<lparr>handshaken = True, base_socket = Some 7, send_queue = []\<rparr>,
        ?w\<lparr>calls := [RecvMessages 7 [local_recv_message] 1,
                     Send 7 (Some 5) 3 [1, 2, 3], Send 7 (Some 0) 1 [4]],
           released := example_queue\<rparr>)"
    unfolding recv_handshake_read [OF h1 h2 h3]
    using h4 h5 h6
    by (simp add: example_priv_def example_queue_def send_of_def)
       (simp add: example_world_def)
  show ?thesis
    by (intro conjI l b r)
qed

subsection \<open>Sending before the handshake\<close>

lemma sendable_example_message: "sendable example_message"
  by (simp add: sendable_def submitted_def example_message_def vector_ok_def)

lemma sendable_example_message2: "sendable example_message2"
  by (simp add: sendable_def submitted_def example_message2_def vector_ok_def)

lemma compacted_example_message:
  "compacted_copy example_message = \<lparr>buf = [1, 2, 3], tbs_length = 3, tbs_to = 5\<rparr>"
  by (simp add: compacted_copy_def submitted_def example_message_def byte_range_def)







text \<open>
  Claim C6, as amended.  A send made after the connection has been poisoned, the decorator
  still not handshaken, never reports failure: when the message array holds
  \<open>n_messages\<close> messages that pass the assertion, the call queues their compacted
  copies and returns \<open>TRUE\<close>, as any other send before the handshake does, and no call
  returns \<open>FALSE\<close>.  (The claim says the call reports failure.)
\<close>

theorem send_when_poisoned_succeeds:
  assumes "\<not> handshaken priv" and "base_socket priv = None"
  shows "(n_messages \<le> length messages \<and> (\<forall>m \<in> set (take n_messages messages). sendable m)
            \<longrightarrow> socket_send_messages priv messages n_messages w =
                  Inr (TRUE, priv\<lparr>send_queue := send_queue priv
                                    @ map compacted_copy (take n_messages messages)\<rparr>, w))
       \<and> socket_send_messages priv messages n_messages w \<noteq> Inr (FALSE, priv', w')"
proof -
  have "socket_send_messages priv messages n_messages w \<noteq> Inr (FALSE, priv', w')"
    using send_not_handshaken_Inr [OF assms(1), of messages n_messages w FALSE priv' w']
    by (auto simp: TRUE_def FALSE_def)
  then show ?thesis
    using send_not_handshaken_sendable [OF assms(1)] by blast
qed

theorem send_when_poisoned_succeeds_witness:
  "\<not> handshaken poisoned_priv \<and> base_socket poisoned_priv = None
   \<and> (1::nat) \<le> length [example_message]
   \<and> sendable example_message
   \<and> socket_send_messages poisoned_priv [example_message] 1 (example_world 1 server_record) =
       Inr (TRUE,
            poisoned_priv\<lparr>send_queue := example_queue
               @ [\<lparr>buf = [1, 2, 3], tbs_length = 3, tbs_to = 5\<rparr>]\<rparr>,
            example_world 1 server_record)"
proof -
  have h1: "\<not> handshaken poisoned_priv" by (simp add: poisoned_priv_def)
  have h0: "base_socket poisoned_priv = None" by (simp add: poisoned_priv_def)
  have h2: "(1::nat) \<le> length [example_message]" by simp
  have h3: "\<forall>m \<in> set (take 1 [example_message]). sendable m"
    by (simp add: sendable_example_message)
  note t = send_when_poisoned_succeeds [OF h1 h0, of 1 "[example_message]"
      "example_world 1 server_record", THEN conjunct1, rule_format, OF conjI, OF h2 h3]
  have c: "socket_send_messages poisoned_priv [example_message] 1 (example_world 1 server_record) =
       Inr (TRUE,
            poisoned_priv\<lparr>send_queue := example_queue
               @ [\<lparr>buf = [1, 2, 3], tbs_length = 3, tbs_to = 5\<rparr>]\<rparr>,
            example_world 1 server_record)"
    using t by (simp add: compacted_example_message poisoned_priv_def)
  show ?thesis
    by (intro conjI h1 h0 h2 sendable_example_message c)
qed

text \<open>
  Claim C6 as stated fails: on the poisoned decorator the send of a message returns
  \<open>TRUE\<close>, which is not \<open>FALSE\<close>, and the message is queued.
\<close>

theorem send_when_poisoned_reports_success:
  "socket_send_messages poisoned_priv [example_message] 1 (example_world 1 server_record) =
       Inr (TRUE,
            poisoned_priv\<lparr>send_queue := example_queue
               @ [\<lparr>buf = [1, 2, 3], tbs_length = 3, tbs_to = 5\<rparr>]\<rparr>,
            example_world 1 server_record)
   \<and> TRUE \<noteq> FALSE"
proof -
  have h1: "\<not> handshaken poisoned_priv" by (simp add: poisoned_priv_def)
  have h3: "\<forall>m \<in> set (take 1 [example_message]). sendable m"
    by (simp add: sendable_example_message)
  have "socket_send_messages poisoned_priv [example_message] 1 (example_world 1 server_record) =
     Inr (TRUE, poisoned_priv\<lparr>send_queue := send_queue poisoned_priv
                       @ map compacted_copy (take 1 [example_message])\<rparr>,
          example_world 1 server_record)"
    by (rule send_not_handshaken_sendable [OF h1 _ h3]) simp
  then show ?thesis
    by (simp add: compacted_example_message poisoned_priv_def TRUE_def FALSE_def)
qed

subsection \<open>Compaction\<close>

lemma compacted_copy_exact:
  assumes "submitted m = Some vs" "\<forall>v \<in> set vs. vector_ok v"
    and "sum_list (map out_size vs) = msg_length m"
  shows "buf (compacted_copy m) = concat (map byte_range vs)"
    and "length (buf (compacted_copy m)) = msg_length m"
    and "tbs_length (compacted_copy m) = msg_length m"
  using assms length_concat_ranges [OF assms(2)]
  by (simp_all add: compacted_copy_def)

lemma sendable_exact:
  assumes "submitted m = Some vs" "\<forall>v \<in> set vs. vector_ok v"
    and "sum_list (map out_size vs) = msg_length m"
  shows "sendable m"
  using assms by (simp add: sendable_def)

text \<open>
  Claim C8.  Let a message submit byte ranges whose sizes sum to its declared length, and
  let the decorator not be handshaken.  Sent alone, the message is queued and the entry's
  buffer is the concatenation of the ranges in order: exactly the declared length, never a
  part of it.  Sent as message \<open>i\<close> of any call that returns, it is the entry at
  position \<open>i\<close> after the entries queued before, with that same buffer.
\<close>

theorem queued_buffer_is_concatenation:
  assumes "submitted m = Some vs" and "\<forall>v \<in> set vs. vector_ok v"
    and "sum_list (map out_size vs) = msg_length m"
    and "\<not> handshaken priv"
  shows "socket_send_messages priv [m] 1 w =
           Inr (TRUE, priv\<lparr>send_queue := send_queue priv @ [compacted_copy m]\<rparr>, w)
       \<and> buf (compacted_copy m) = concat (map byte_range vs)
       \<and> length (buf (compacted_copy m)) = msg_length m
       \<and> tbs_length (compacted_copy m) = msg_length m
       \<and> (socket_send_messages priv messages n_messages w = Inr (r, priv', w')
            \<and> i < n_messages \<and> messages ! i = m
          \<longrightarrow> send_queue priv' ! (length (send_queue priv) + i) = compacted_copy m)"
proof (intro conjI impI)
  have sm: "sendable m" using assms(1-3) by (rule sendable_exact)
  show "socket_send_messages priv [m] 1 w =
           Inr (TRUE, priv\<lparr>send_queue := send_queue priv @ [compacted_copy m]\<rparr>, w)"
    using send_not_handshaken_sendable [OF assms(4), of 1 "[m]" w] sm by simp
  show "buf (compacted_copy m) = concat (map byte_range vs)"
    "length (buf (compacted_copy m)) = msg_length m"
    "tbs_length (compacted_copy m) = msg_length m"
    using compacted_copy_exact [OF assms(1-3)] by simp_all
  assume a: "socket_send_messages priv messages n_messages w = Inr (r, priv', w')
            \<and> i < n_messages \<and> messages ! i = m"
  then have "add_to_be_sent_from 0 priv messages n_messages = Inr priv'"
    using send_not_handshaken_Inr [OF assms(4), of messages n_messages w r priv' w']
    by (simp add: add_to_be_sent_def)
  from add_to_be_sent_from_Inr [OF this] obtain ts where
    p: "priv' = priv\<lparr>send_queue := send_queue priv @ ts\<rparr>" and l: "length ts = n_messages"
    and q: "\<forall>k < n_messages. k < length messages \<and> queue_message (messages ! k) = Inr (ts ! k)"
    by auto
  from q a have "queue_message m = Inr (ts ! i)" by auto
  with queue_message_sendable [OF sm] have "ts ! i = compacted_copy m" by simp
  then show "send_queue priv' ! (length (send_queue priv) + i) = compacted_copy m"
    using p by simp
qed

text \<open>The ranges \<open>[1, 2]\<close> and \<open>[3]\<close>, alone and as the second message of a call.\<close>

theorem queued_buffer_is_concatenation_witness:
  "submitted example_message
     = Some [\<lparr>out_buffer = Some [1, 2], out_size = 2\<rparr>, \<lparr>out_buffer = Some [3], out_size = 1\<rparr>]
   \<and> vector_ok \<lparr>out_buffer = Some [1, 2], out_size = 2\<rparr>
   \<and> vector_ok \<lparr>out_buffer = Some [3], out_size = 1\<rparr>
   \<and> sum_list (map out_size [\<lparr>out_buffer = Some [1, 2], out_size = 2\<rparr>,
                              \<lparr>out_buffer = Some [3], out_size = 1\<rparr>])
        = msg_length example_message
   \<and> \<not> handshaken example_priv
   \<and> socket_send_messages example_priv [example_message] 1 (example_world 1 server_record) =
        Inr (TRUE, example_priv\<lparr>send_queue := example_queue @ [compacted_copy example_message]\<rparr>,
             example_world 1 server_record)
   \<and> buf (compacted_copy example_message) = [1, 2, 3]
   \<and> socket_send_messages example_priv [example_message2, example_message] 2
        (example_world 1 server_record) =
        Inr (TRUE, example_priv\<lparr>send_queue := example_queue
                     @ [compacted_copy example_message2, compacted_copy example_message]\<rparr>,
             example_world 1 server_record)
   \<and> (1::nat) < 2 \<and> [example_message2, example_message] ! 1 = example_message
   \<and> send_queue (example_priv\<lparr>send_queue := example_queue
                     @ [compacted_copy example_message2, compacted_copy example_message]\<rparr>)
        ! (length (send_queue example_priv) + 1) = compacted_copy example_message"
proof -
  let ?vs = "[\<lparr>out_buffer = Some [1, 2], out_size = 2\<rparr>, \<lparr>out_buffer = Some [3], out_size = 1\<rparr>]"
  let ?w = "example_world 1 server_record"
  let ?p' = "example_priv\<lparr>send_queue := example_queue
                     @ [compacted_copy example_message2, compacted_copy example_message]\<rparr>"
  have h1: "submitted example_message = Some ?vs"
    by (simp add: submitted_def example_message_def)
  have h2: "\<forall>v \<in> set ?vs. vector_ok v" by (simp add: vector_ok_def)
  have h3: "sum_list (map out_size ?vs) = msg_length example_message"
    by (simp add: example_message_def)
  have h4: "\<not> handshaken example_priv" by (simp add: example_priv_def)
  have s2: "socket_send_messages example_priv [example_message2, example_message] 2 ?w =
        Inr (TRUE, ?p', ?w)"
    using send_not_handshaken_sendable [OF h4, of 2 "[example_message2, example_message]" ?w]
    by (simp add: sendable_example_message sendable_example_message2 example_priv_def)
  have i1: "(1::nat) < 2" by simp
  have i2: "[example_message2, example_message] ! 1 = example_message" by simp
  note t = queued_buffer_is_concatenation [OF h1 h2 h3 h4,
      of ?w "[example_message2, example_message]" 2 TRUE ?p' ?w 1]
  have c1: "socket_send_messages example_priv [example_message] 1 ?w =
        Inr (TRUE, example_priv\<lparr>send_queue := example_queue @ [compacted_copy example_message]\<rparr>, ?w)"
    using t by (simp add: example_priv_def)
  have c2: "buf (compacted_copy example_message) = [1, 2, 3]"
    using t by (simp add: byte_range_def)
  have c3: "send_queue ?p' ! (length (send_queue example_priv) + 1) = compacted_copy example_message"
    using t s2 i1 i2 by blast
  have v1: "vector_ok \<lparr>out_buffer = Some [1, 2], out_size = 2\<rparr>"
    and v2: "vector_ok \<lparr>out_buffer = Some [3], out_size = 1\<rparr>"
    using h2 by simp_all
  show ?thesis
    by (intro conjI h1 v1 v2 h3 h4 c1 c2 s2 i1 i2 c3)
qed

text \<open>
  Claim C9.  For a message whose array can be read and whose vectors describe memory that
  exists, the assertion at the end of queueing it holds exactly when its byte ranges
  jointly hold at least the declared length: when they hold fewer bytes the assertion
  fails, and the program stops; otherwise the message is queued as its compacted copy.
  Nothing else can happen.
\<close>

theorem assertion_holds_iff_enough_bytes:
  assumes "submitted m = Some vs" and "\<forall>v \<in> set vs. vector_ok v"
  shows "(queue_message m = Inl AssertionFailed) = (sum_list (map out_size vs) < msg_length m)
       \<and> (queue_message m = Inr (compacted_copy m)) = (msg_length m \<le> sum_list (map out_size vs))
       \<and> add_to_be_sent priv [m] 1 =
           (if sum_list (map out_size vs) < msg_length m then Inl AssertionFailed
            else Inr (priv\<lparr>send_queue := send_queue priv @ [compacted_copy m]\<rparr>))"
proof -
  have a: "add_to_be_sent priv [m] 1 =
      (case queue_message m of Inl e \<Rightarrow> Inl e
       | Inr tbs \<Rightarrow> Inr (priv\<lparr>send_queue := send_queue priv @ [tbs]\<rparr>))"
    unfolding add_to_be_sent_def
    by (subst add_to_be_sent_from.simps, subst add_to_be_sent_from.simps)
       (simp split: sum.splits)
  show ?thesis
    unfolding a using assms
    by (auto simp: queue_message_submitted [OF assms] compacted_copy_def)
qed

text \<open>A message that declares three bytes and brings two; one that brings all three.\<close>

theorem assertion_holds_iff_enough_bytes_witness:
  "submitted short_message = Some [\<lparr>out_buffer = Some [1, 2], out_size = 2\<rparr>]
   \<and> vector_ok \<lparr>out_buffer = Some [1, 2], out_size = 2\<rparr>
   \<and> sum_list (map out_size [\<lparr>out_buffer = Some [1, 2], out_size = 2\<rparr>]) < msg_length short_message
   \<and> queue_message short_message = Inl AssertionFailed
   \<and> add_to_be_sent example_priv [short_message] 1 = Inl AssertionFailed"
proof -
  let ?vs = "[\<lparr>out_buffer = Some [1, 2], out_size = 2\<rparr>]"
  have h1: "submitted short_message = Some ?vs"
    by (simp add: submitted_def short_message_def)
  have h2: "\<forall>v \<in> set ?vs. vector_ok v" by (simp add: vector_ok_def)
  have h3: "sum_list (map out_size ?vs) < msg_length short_message"
    by (simp add: short_message_def)
  note t = assertion_holds_iff_enough_bytes [OF h1 h2, of example_priv]
  have c: "queue_message short_message = Inl AssertionFailed"
    using t h3 by blast
  have d: "add_to_be_sent example_priv [short_message] 1 = Inl AssertionFailed"
    using t h3 by simp
  have v: "vector_ok \<lparr>out_buffer = Some [1, 2], out_size = 2\<rparr>"
    using h2 by simp
  show ?thesis
    by (intro conjI h1 v h3 c d)
qed

end
